theory Spec2Isabelle
  imports Main "HOL-Library.AList" "HOL-Library.Product_Lexorder" "HOL-Library.Multiset"
begin

section \<open>Data model\<close>

text \<open>
  Timestamps are timezone-aware \<^verbatim>\<open>datetime\<close> values; two aware datetimes compare as
  absolute instants, so a timestamp is modelled as the integer number of microseconds
  since the epoch and a \<^verbatim>\<open>timedelta\<close> as an integer number of microseconds.
\<close>

type_synonym datetime = int
type_synonym timedelta = int

text \<open>
  The dataclass \<^verbatim>\<open>Task\<close> of \<^verbatim>\<open>scheduler_agency.py\<close>. The field \<^verbatim>\<open>id\<close> is called
  \<open>task_id\<close> here, since \<open>id\<close> is the identity function of HOL.
\<close>

record Task =
  task_id :: string
  title :: string
  description :: string
  priority :: int
  due_date :: datetime
  status :: string
  assigned_to :: string
  dependencies :: "string list"
  scheduled_start :: "datetime option"
  scheduled_end :: "datetime option"
  calendar_event_id :: "string option"

text \<open>
  A Python \<^verbatim>\<open>dict\<close> keeps its keys in insertion order: assigning to a key that is
  present replaces the value in place, assigning to a new key appends it. That is
  \<open>AList.update\<close> on an association list; \<open>map_of\<close> is the lookup.
\<close>

type_synonym ('k, 'v) pydict = "('k \<times> 'v) list"

definition keys :: "('k, 'v) pydict \<Rightarrow> 'k list" where
  "keys d = map fst d"

definition dict_values :: "('k, 'v) pydict \<Rightarrow> 'v list" where
  "dict_values d = map snd d"

definition dict_get :: "('k, 'v) pydict \<Rightarrow> 'k \<Rightarrow> 'v \<Rightarrow> 'v" where
  "dict_get d k dflt = (case map_of d k of None \<Rightarrow> dflt | Some v \<Rightarrow> v)"

text \<open>
  The exceptions that the operations of the interpreter raise in this program are values
  of \<open>error\<close>, with their argument where they have one.
\<close>

datatype error = ValueError string | KeyError string | RecursionError | OverflowError

section \<open>The scheduler agent (\<^verbatim>\<open>scheduler_agency.py\<close>)\<close>

text \<open>
  \<^verbatim>\<open>Task\<close> objects are mutable and shared: the dictionary \<^verbatim>\<open>self.tasks\<close> and the lists of
  \<^verbatim>\<open>self.current_schedule\<close> hold references to the same objects, and \<^verbatim>\<open>assign_task\<close>
  writes a field of the object in place. The state therefore carries the object heap
  \<open>objs\<close>, a map from references to task objects, and the containers hold references.
\<close>

type_synonym ref = nat

record SchedulerAgent =
  objs :: "ref \<Rightarrow> Task"
  tasks :: "(string, ref) pydict"
  agents :: "string list"
  current_schedule :: "(string, ref list) pydict"

definition init :: "(ref \<Rightarrow> Task) \<Rightarrow> SchedulerAgent" where
  "init h = \<lparr>objs = h, tasks = [], agents = [], current_schedule = []\<rparr>"

text \<open>\<^verbatim>\<open>add_task\<close>: refuses an id that is already a key, otherwise stores the reference.\<close>

definition add_task :: "ref \<Rightarrow> SchedulerAgent \<Rightarrow> bool \<times> SchedulerAgent" where
  "add_task task s =
     (if task_id (objs s task) \<in> set (keys (tasks s)) then (False, s)
      else (True, s\<lparr>tasks := AList.update (task_id (objs s task)) task (tasks s)\<rparr>))"

text \<open>
  \<^verbatim>\<open>assign_task\<close>: the guard makes the lookup \<^verbatim>\<open>self.tasks[task_id]\<close> succeed; the
  assignment writes the field \<^verbatim>\<open>assigned_to\<close> of the referenced object.
\<close>

definition assign_task :: "string \<Rightarrow> string \<Rightarrow> SchedulerAgent \<Rightarrow> bool \<times> SchedulerAgent" where
  "assign_task tid agent_id s =
     (if tid \<notin> set (keys (tasks s)) \<or> agent_id \<notin> set (agents s) then (False, s)
      else (case map_of (tasks s) tid of
              None \<Rightarrow> (False, s)
            | Some r \<Rightarrow> (True, s\<lparr>objs := (objs s)(r := (objs s r)\<lparr>assigned_to := agent_id\<rparr>)\<rparr>)))"

definition update_task_status :: "string \<Rightarrow> string \<Rightarrow> SchedulerAgent \<Rightarrow> bool \<times> SchedulerAgent" where
  "update_task_status tid st s =
     (if tid \<notin> set (keys (tasks s)) then (False, s)
      else (case map_of (tasks s) tid of
              None \<Rightarrow> (False, s)
            | Some r \<Rightarrow> (True, s\<lparr>objs := (objs s)(r := (objs s r)\<lparr>status := st\<rparr>)\<rparr>)))"

text \<open>
  \<^verbatim>\<open>optimize_schedule\<close>. The sort key is the tuple \<^verbatim>\<open>(x.priority, x.due_date)\<close>, compared
  lexicographically; \<^verbatim>\<open>list.sort\<close> is stable, as \<open>sort_key\<close> is. The loop over the agents
  assigns \<^verbatim>\<open>schedule[agent]\<close>, so an agent listed twice keeps its first position.
\<close>

definition sort_key_of :: "(ref \<Rightarrow> Task) \<Rightarrow> ref \<Rightarrow> int \<times> datetime" where
  "sort_key_of h r = (priority (h r), due_date (h r))"

definition agent_tasks :: "SchedulerAgent \<Rightarrow> string \<Rightarrow> ref list" where
  "agent_tasks s agent =
     sort_key (sort_key_of (objs s))
       (filter (\<lambda>r. assigned_to (objs s r) = agent) (dict_values (tasks s)))"

fun schedule_loop :: "SchedulerAgent \<Rightarrow> string list \<Rightarrow> (string, ref list) pydict
    \<Rightarrow> (string, ref list) pydict" where
  "schedule_loop s [] schedule = schedule"
| "schedule_loop s (agent # rest) schedule =
     schedule_loop s rest (AList.update agent (agent_tasks s agent) schedule)"

definition optimize_schedule :: "SchedulerAgent \<Rightarrow> (string, ref list) pydict \<times> SchedulerAgent" where
  "optimize_schedule s =
     (let schedule = schedule_loop s (agents s) []
      in (schedule, s\<lparr>current_schedule := schedule\<rparr>))"

definition get_agent_schedule :: "string \<Rightarrow> SchedulerAgent \<Rightarrow> ref list" where
  "get_agent_schedule agent_id s = dict_get (current_schedule s) agent_id []"

text \<open>\<^verbatim>\<open>initialize_system\<close> of the orchestrator registers the agents by assigning the field.\<close>

definition initialize_system :: "string list \<Rightarrow> SchedulerAgent \<Rightarrow> SchedulerAgent" where
  "initialize_system ags s = s\<lparr>agents := ags\<rparr>"

text \<open>
  \<^verbatim>\<open>find_available_time_for_task\<close> of the orchestrator writes the reserved slot onto the
  task object it was given.
\<close>

definition set_scheduled :: "ref \<Rightarrow> datetime \<Rightarrow> datetime \<Rightarrow> SchedulerAgent \<Rightarrow> SchedulerAgent" where
  "set_scheduled r t0 t1 s =
     s\<lparr>objs := (objs s)(r := (objs s r)\<lparr>scheduled_start := Some t0, scheduled_end := Some t1\<rparr>)\<rparr>"

text \<open>A call of one of the operations; \<open>run\<close> performs a sequence of calls.\<close>

datatype call =
    AddTask ref
  | AssignTask string string
  | UpdateTaskStatus string string
  | OptimizeSchedule
  | InitializeSystem "string list"
  | SetScheduled ref datetime datetime

fun exec :: "call \<Rightarrow> SchedulerAgent \<Rightarrow> SchedulerAgent" where
  "exec (AddTask r) s = snd (add_task r s)"
| "exec (AssignTask t a) s = snd (assign_task t a s)"
| "exec (UpdateTaskStatus t st) s = snd (update_task_status t st s)"
| "exec OptimizeSchedule s = snd (optimize_schedule s)"
| "exec (InitializeSystem ags) s = initialize_system ags s"
| "exec (SetScheduled r t0 t1) s = set_scheduled r t0 t1 s"

fun run :: "call list \<Rightarrow> SchedulerAgent \<Rightarrow> SchedulerAgent" where
  "run [] s = s"
| "run (c # cs) s = run cs (exec c s)"

text \<open>
  Every key of \<^verbatim>\<open>self.tasks\<close> is the id of the object stored under it. It holds of the
  empty store and every call keeps it, so two keys never share an object.
\<close>

definition keyed_by_id :: "SchedulerAgent \<Rightarrow> bool" where
  "keyed_by_id s = (\<forall>(k, r) \<in> set (tasks s). task_id (objs s r) = k)"

text \<open>
  The \<^verbatim>\<open>Task(...)\<close> that \<^verbatim>\<open>create_task\<close> of the orchestrator constructs: status
  \<^verbatim>\<open>"pending"\<close>, no agent, nothing scheduled.
\<close>

definition new_task :: "string \<Rightarrow> string \<Rightarrow> string \<Rightarrow> int \<Rightarrow> datetime \<Rightarrow> string list \<Rightarrow> Task" where
  "new_task tid ttl descr p due deps =
     \<lparr>task_id = tid, title = ttl, description = descr, priority = p, due_date = due,
      status = ''pending'', assigned_to = [], dependencies = deps,
      scheduled_start = None, scheduled_end = None, calendar_event_id = None\<rparr>"

subsection \<open>A concrete store\<close>

text \<open>
  Four task objects, two of them with the same id, and a store built from them by calls of
  the operations. The instances below are evaluated on these.
\<close>

definition demo_objs :: "ref \<Rightarrow> Task" where
  "demo_objs r =
     (if r = 0 then new_task ''task_1'' ''Report'' ''write it'' 2 100 []
      else if r = 1 then new_task ''task_2'' ''Review'' ''read it'' 1 50 [''task_1'']
      else if r = 2 then new_task ''task_1'' ''Again'' ''same id'' 3 10 []
      else new_task ''task_3'' ''Ship'' ''send it'' 1 20 [''task_2''])"

definition demo_calls :: "call list" where
  "demo_calls = [AddTask 1, InitializeSystem [''agent_1'', ''agent_2''],
     AssignTask ''task_1'' ''agent_1'', OptimizeSchedule,
     UpdateTaskStatus ''task_1'' ''in_progress'']"

definition demo_store :: SchedulerAgent where
  "demo_store = run [InitializeSystem [''agent_1'', ''agent_2''], AddTask 0, AddTask 1, AddTask 3,
     AssignTask ''task_1'' ''agent_1'', AssignTask ''task_2'' ''agent_1''] (init demo_objs)"

text \<open>A store whose only registered agent has the empty string as its id.\<close>

definition unnamed_agent_store :: SchedulerAgent where
  "unnamed_agent_store = run [InitializeSystem [[]], AddTask 0] (init demo_objs)"

section \<open>The calendar checking agent (\<^verbatim>\<open>calendar_checking_agent.py\<close>)\<close>

text \<open>
  The dataclass \<^verbatim>\<open>TimeSlot\<close>. The calendar service is outside the program: it is a
  parameter, the function that gives for a window \<^verbatim>\<open>timeMin\<close>, \<^verbatim>\<open>timeMax\<close> the list
  \<^verbatim>\<open>busy_slots\<close> that \<^verbatim>\<open>get_availability\<close> builds from the events the service returns,
  in the order in which the service returns them. A datetime without a timezone is taken
  as UTC before anything else is done, which leaves an instant as it is; the default of
  \<^verbatim>\<open>start_from\<close>, the current time, is an input here.
\<close>

record TimeSlot =
  start_time :: datetime
  end_time :: datetime
  is_available :: bool

type_synonym calendar = "datetime \<Rightarrow> datetime \<Rightarrow> TimeSlot list"

text \<open>
  The loop of \<^verbatim>\<open>get_availability\<close> over the busy slots, with its two variables
  \<^verbatim>\<open>current_time\<close> and \<^verbatim>\<open>available_slots\<close>: a gap before the busy slot is emitted when
  the cursor is before its start, and the cursor is then set to the end of the busy slot.
\<close>

fun sweep :: "datetime \<Rightarrow> TimeSlot list \<Rightarrow> TimeSlot list \<Rightarrow> datetime \<times> TimeSlot list" where
  "sweep current_time [] available_slots = (current_time, available_slots)"
| "sweep current_time (busy_slot # rest) available_slots =
     sweep (end_time busy_slot) rest
       (if current_time < start_time busy_slot
        then available_slots @
          [\<lparr>start_time = current_time, end_time = start_time busy_slot, is_available = True\<rparr>]
        else available_slots)"

definition get_availability :: "calendar \<Rightarrow> datetime \<Rightarrow> datetime \<Rightarrow> TimeSlot list" where
  "get_availability cal start_t end_t =
     (case sweep start_t (cal start_t end_t) [] of
        (current_time, available_slots) \<Rightarrow>
          if current_time < end_t
          then available_slots @
            [\<lparr>start_time = current_time, end_time = end_t, is_available = True\<rparr>]
          else available_slots)"


definition minutes :: "int \<Rightarrow> timedelta" where
  "minutes n = n * 60000000"







text \<open>Two half-open intervals intersect when they share an instant.\<close>

definition intersects :: "TimeSlot \<Rightarrow> TimeSlot \<Rightarrow> bool" where
  "intersects a b \<longleftrightarrow> max (start_time a) (start_time b) < min (end_time a) (end_time b)"

text \<open>The busy slot \<^verbatim>\<open>TimeSlot(start_dt, end_dt, False)\<close> built from an event.\<close>

definition busy :: "datetime \<Rightarrow> datetime \<Rightarrow> TimeSlot" where
  "busy t0 t1 = \<lparr>start_time = t0, end_time = t1, is_available = False\<rparr>"

subsection \<open>Concrete calendars\<close>

text \<open>
  Times are minutes after midnight of the first day of 1970. \<open>spec_calendar\<close> has the two
  meetings 02:00--03:00 and 05:00--06:00; in \<open>nested_calendar\<close> a meeting 02:00--03:00 lies
  inside a meeting 01:00--08:00; \<open>late_calendar\<close> is busy until 09:50.
\<close>

definition free :: "datetime \<Rightarrow> datetime \<Rightarrow> TimeSlot" where
  "free t0 t1 = \<lparr>start_time = t0, end_time = t1, is_available = True\<rparr>"


definition nested_calendar :: calendar where
  "nested_calendar t0 t1 = [busy (minutes 60) (minutes 480), busy (minutes 120) (minutes 180)]"


section \<open>The task optimizer agent (\<^verbatim>\<open>task_optimizer_agent.py\<close>)\<close>

text \<open>
  The methods of the optimizer read the tasks they are given and write none of their
  fields, so here a task is its value.
\<close>

subsection \<open>Redistribution\<close>

text \<open>
  \<^verbatim>\<open>suggest_task_redistribution\<close>. The key of \<^verbatim>\<open>min\<close> is
  \<^verbatim>\<open>sum(t.priority for t in x[1])\<close>, here \<open>load\<close>. \<^verbatim>\<open>min\<close> keeps the first item and
  replaces it only by an item whose key is smaller, and raises \<^verbatim>\<open>ValueError\<close> on an
  empty sequence. \<^verbatim>\<open>sorted(tasks, key=..., reverse=True)\<close> keeps tasks of equal priority in
  their given order: the list is reversed, sorted stably and reversed again. The
  dictionary comprehension is the loop \<open>empty_workload\<close>.
\<close>

definition load :: "Task list \<Rightarrow> int" where
  "load ts = sum_list (map priority ts)"

fun min_by :: "('a \<Rightarrow> int) \<Rightarrow> 'a \<Rightarrow> 'a list \<Rightarrow> 'a" where
  "min_by key best [] = best"
| "min_by key best (x # xs) = min_by key (if key x < key best then x else best) xs"

fun py_min :: "('a \<Rightarrow> int) \<Rightarrow> 'a list \<Rightarrow> error + 'a" where
  "py_min key [] = Inl (ValueError ''min() arg is an empty sequence'')"
| "py_min key (x # xs) = Inr (min_by key x xs)"

fun empty_workload :: "string list \<Rightarrow> (string, Task list) pydict \<Rightarrow> (string, Task list) pydict" where
  "empty_workload [] workload = workload"
| "empty_workload (agent # rest) workload = empty_workload rest (AList.update agent [] workload)"

definition sorted_reverse :: "Task list \<Rightarrow> Task list" where
  "sorted_reverse ts = rev (sort_key priority (rev ts))"

fun assign_loop :: "(string, Task list) pydict \<Rightarrow> Task list \<Rightarrow> error + (string, Task list) pydict" where
  "assign_loop workload [] = Inr workload"
| "assign_loop workload (task # rest) =
     (case py_min (\<lambda>x. load (snd x)) workload of
        Inl e \<Rightarrow> Inl e
      | Inr item \<Rightarrow>
          (case map_of workload (fst item) of
             None \<Rightarrow> Inl (KeyError (fst item))
           | Some l \<Rightarrow> assign_loop (AList.update (fst item) (l @ [task]) workload) rest))"

definition suggest_task_redistribution :: "Task list \<Rightarrow> string list \<Rightarrow> error + (string, Task list) pydict" where
  "suggest_task_redistribution ts ags =
     (let workload = empty_workload ags [];
          sorted_tasks = sorted_reverse ts
      in assign_loop workload sorted_tasks)"

subsection \<open>Task sequence\<close>

text \<open>
  \<^verbatim>\<open>_build_dependency_graph\<close> and \<^verbatim>\<open>_topological_sort\<close> (a name cannot start with an
  underscore here). The closure \<^verbatim>\<open>visit\<close> shares the sets \<^verbatim>\<open>visited\<close> and \<^verbatim>\<open>temp\<close> and
  the list \<^verbatim>\<open>order\<close> with its caller: they are the state that every call takes and
  returns. \<open>visit_deps\<close> is the loop over \<^verbatim>\<open>graph.get(task_id, [])\<close>; \<^verbatim>\<open>temp.remove\<close> raises
  \<^verbatim>\<open>KeyError\<close> on an element that is not in the set.

  Every call of \<^verbatim>\<open>visit\<close> takes a frame of the interpreter, and the interpreter raises
  \<^verbatim>\<open>RecursionError\<close> at a call for which no frame is left. The first argument \<open>frames\<close> is
  the number of frames that are free where the call is made: what the recursion limit
  (1000 unless it was changed) leaves after the frames of the callers.
\<close>

type_synonym graph = "(string, string list) pydict"

fun build_dependency_graph_loop :: "Task list \<Rightarrow> graph \<Rightarrow> graph" where
  "build_dependency_graph_loop [] g = g"
| "build_dependency_graph_loop (task # rest) g =
     build_dependency_graph_loop rest (AList.update (task_id task) (dependencies task) g)"

definition build_dependency_graph :: "Task list \<Rightarrow> graph" where
  "build_dependency_graph ts = build_dependency_graph_loop ts []"

record dfs_state =
  visited :: "string set"
  temp :: "string set"
  order :: "string list"

function visit :: "nat \<Rightarrow> graph \<Rightarrow> string \<Rightarrow> dfs_state \<Rightarrow> error + dfs_state"
  and visit_deps :: "nat \<Rightarrow> graph \<Rightarrow> string list \<Rightarrow> dfs_state \<Rightarrow> error + dfs_state" where
  "visit frames g tid st =
     (if frames = 0 then Inl RecursionError
      else if tid \<in> temp st then Inl (ValueError ''Circular dependency detected'')
      else if tid \<in> visited st then Inr st
      else (case visit_deps (frames - 1) g (dict_get g tid [])
                   (st\<lparr>temp := insert tid (temp st)\<rparr>) of
              Inl e \<Rightarrow> Inl e
            | Inr st' \<Rightarrow>
                if tid \<notin> temp st' then Inl (KeyError tid)
                else Inr (st'\<lparr>temp := temp st' - {tid},
                              visited := insert tid (visited st'),
                              order := order st' @ [tid]\<rparr>)))"
| "visit_deps frames g [] st = Inr st"
| "visit_deps frames g (dep # rest) st =
     (case visit frames g dep st of
        Inl e \<Rightarrow> Inl e
      | Inr st' \<Rightarrow> visit_deps frames g rest st')"
  by pat_completeness auto

text \<open>
  Termination: a call of \<open>visit\<close> that recurses leaves one frame less, and the loop over
  the dependencies gets shorter.
\<close>

termination visit
proof (relation "inv_image (less_than <*lex*> less_than)
    (\<lambda>x. case x of
        Inl (frames, g, tid, st) \<Rightarrow> (frames, 0::nat)
      | Inr (frames, g, ds, st) \<Rightarrow> (frames, Suc (length ds)))",
    goal_cases)
  case 1
  show ?case by (intro wf_inv_image wf_lex_prod wf_less_than)
qed simp_all

declare visit.simps [simp del]

text \<open>
  The loop of \<^verbatim>\<open>_topological_sort\<close> over the keys of the graph, and the reversal of
  \<^verbatim>\<open>order\<close> that it returns.
\<close>

fun visit_all :: "nat \<Rightarrow> graph \<Rightarrow> string list \<Rightarrow> dfs_state \<Rightarrow> error + dfs_state" where
  "visit_all frames g [] st = Inr st"
| "visit_all frames g (tid # rest) st =
     (if tid \<notin> visited st
      then (case visit frames g tid st of
              Inl e \<Rightarrow> Inl e
            | Inr st' \<Rightarrow> visit_all frames g rest st')
      else visit_all frames g rest st)"

definition topological_sort :: "nat \<Rightarrow> graph \<Rightarrow> error + string list" where
  "topological_sort frames g =
     (case visit_all frames g (keys g) \<lparr>visited = {}, temp = {}, order = []\<rparr> of
        Inl e \<Rightarrow> Inl e
      | Inr st \<Rightarrow> Inr (rev (order st)))"

definition optimize_task_sequence :: "nat \<Rightarrow> Task list \<Rightarrow> error + string list" where
  "optimize_task_sequence frames ts = topological_sort frames (build_dependency_graph ts)"

subsection \<open>Notions used in the statements\<close>

text \<open>
  \<open>precedes a b xs\<close>: \<open>b\<close> occurs in the list \<open>xs\<close> and \<open>a\<close> occurs before the first \<open>b\<close>.
  \<open>depends_on g\<close> is the relation between an id and each of the dependency ids listed for
  it in the graph. \<open>emitted_after_deps\<close> says of a state of the traversal that \<open>order\<close>
  lists the visited ids, each once, every one after all of its dependencies.
\<close>

definition precedes :: "'a \<Rightarrow> 'a \<Rightarrow> 'a list \<Rightarrow> bool" where
  "precedes a b xs \<longleftrightarrow> b \<in> set xs \<and> a \<in> set (takeWhile (\<lambda>x. x \<noteq> b) xs)"


definition emitted_after_deps :: "graph \<Rightarrow> dfs_state \<Rightarrow> bool" where
  "emitted_after_deps g st \<longleftrightarrow>
     set (order st) = visited st \<and> distinct (order st)
     \<and> (\<forall>m \<in> visited st. \<forall>d \<in> set (dict_get g m []). precedes d m (order st))"


text \<open>
  The policy of the specification, in its own words, as a relation between the state
  before, the tasks to place in their order, and the state after: the state lists the
  agents in roster order, each with its running cumulative weight and its tasks. A task
  goes to an agent whose weight is smaller than that of every agent before it in the
  roster and not larger than that of any agent after it; the weight of the task is added
  to that agent's weight and the task is put at the end of its list. \<open>roster\<close> is the
  list of agents in the order of their first mention, \<open>assignment\<close> forgets the weights.
\<close>

fun roster :: "string list \<Rightarrow> string list" where
  "roster [] = []"
| "roster (a # rest) = a # removeAll a (roster rest)"

inductive greedy :: "(string \<times> int \<times> Task list) list \<Rightarrow> Task list
    \<Rightarrow> (string \<times> int \<times> Task list) list \<Rightarrow> bool" where
  greedy_done: "greedy st [] st"
| greedy_place:
    "\<lbrakk>st = pre @ (a, w, l) # post;
      \<forall>(b, v, k) \<in> set pre. w < v;
      \<forall>(b, v, k) \<in> set post. w \<le> v;
      greedy (pre @ (a, w + priority t, l @ [t]) # post) ts st'\<rbrakk>
     \<Longrightarrow> greedy st (t # ts) st'"

definition assignment :: "(string \<times> int \<times> Task list) list \<Rightarrow> (string, Task list) pydict" where
  "assignment st = map (\<lambda>(a, w, l). (a, l)) st"

subsection \<open>Concrete task lists\<close>

text \<open>
  \<open>weighted\<close> is a task of a given priority. In \<open>chain_tasks\<close> the second task depends on
  the first; the two tasks of \<open>cyclic_tasks\<close> depend on each other, as do those of
  \<open>other_cyclic_tasks\<close>; the three tasks of \<open>ring_tasks\<close> depend on each other in a ring; the task of
  \<open>dangling_tasks\<close> depends on an id that no task has.
\<close>

definition weighted :: "string \<Rightarrow> int \<Rightarrow> Task" where
  "weighted tid w = new_task tid tid [] w 0 []"

definition chain_tasks :: "Task list" where
  "chain_tasks = [new_task ''task_1'' ''Build'' [] 1 0 [],
                  new_task ''task_2'' ''Test'' [] 1 0 [''task_1'']]"





section \<open>Properties of the scheduler agent\<close>

lemmas call_defs = add_task_def assign_task_def update_task_status_def optimize_schedule_def
  initialize_system_def set_scheduled_def

lemmas store_defs = init_def keys_def dict_values_def call_defs agent_tasks_def sort_key_of_def
  dict_get_def new_task_def demo_objs_def Let_def

subsection \<open>Dictionaries\<close>

lemma set_update_subset: "set (AList.update k v d) \<subseteq> insert (k, v) (set d)"
  by (induction d) auto

lemma keys_update: "set (keys (AList.update k v d)) = insert k (set (keys d))"
  by (induction d) (auto simp: keys_def)

lemma map_of_update_other:
  "k \<notin> set (keys d) \<Longrightarrow> map_of d k' = Some r \<Longrightarrow> map_of (AList.update k v d) k' = Some r"
  by (auto simp: update_conv' keys_def map_of_eq_None_iff[symmetric])

lemma lookup_in_keys: "map_of d k = Some r \<Longrightarrow> k \<in> set (keys d)"
  by (auto simp: keys_def dest: map_of_SomeD intro: rev_image_eqI)

subsection \<open>What a call preserves\<close>

text \<open>No operation writes the id of an object, and no operation removes or rebinds a key.\<close>

lemma exec_task_id [simp]: "task_id (objs (exec c s) x) = task_id (objs s x)"
  by (cases c) (auto simp: call_defs Let_def split: option.splits)

lemma run_task_id [simp]: "task_id (objs (run cs s) x) = task_id (objs s x)"
  by (induction cs arbitrary: s) auto

lemma exec_lookup: "map_of (tasks s) k = Some r \<Longrightarrow> map_of (tasks (exec c s)) k = Some r"
  by (cases c) (auto simp: call_defs Let_def map_of_update_other split: option.splits)

lemma run_lookup: "map_of (tasks s) k = Some r \<Longrightarrow> map_of (tasks (run cs s)) k = Some r"
  by (induction cs arbitrary: s) (auto simp: exec_lookup)

lemma keyed_by_id_init: "keyed_by_id (init h)"
  by (simp add: keyed_by_id_def init_def)

lemma keyed_by_id_exec: "keyed_by_id s \<Longrightarrow> keyed_by_id (exec c s)"
proof (cases c)
  case (AddTask r)
  assume "keyed_by_id s"
  then show ?thesis using AddTask set_update_subset[of "task_id (objs s r)" r "tasks s"]
    by (auto simp: keyed_by_id_def add_task_def)
qed (auto simp: keyed_by_id_def call_defs Let_def split: option.splits)

lemma keyed_by_id_run: "keyed_by_id s \<Longrightarrow> keyed_by_id (run cs s)"
  by (induction cs arbitrary: s) (auto simp: keyed_by_id_exec)

subsection \<open>Adding a task\<close>

text \<open>
  C7. Once \<^verbatim>\<open>add_task\<close> has accepted a task, then after any further sequence of calls
  \<open>cs\<close> an \<^verbatim>\<open>add_task\<close> of any task object carrying the same id is refused (the method
  returns \<^verbatim>\<open>False\<close>, its only failure), the whole state is as it was before the refused
  call, and the id still refers to the object that was stored first.
\<close>

theorem add_task_duplicate_id_rejected:
  assumes "add_task r s = (True, s1)"
    and "task_id (objs (run cs s1) r') = task_id (objs s r)"
  shows "add_task r' (run cs s1) = (False, run cs s1)
    \<and> map_of (tasks (run cs s1)) (task_id (objs s r)) = Some r"
proof -
  from assms(1) have s1: "s1 = s\<lparr>tasks := AList.update (task_id (objs s r)) r (tasks s)\<rparr>"
    by (auto simp: add_task_def split: if_splits)
  from s1 have "map_of (tasks s1) (task_id (objs s r)) = Some r"
    by (simp add: update_conv')
  then have stored: "map_of (tasks (run cs s1)) (task_id (objs s r)) = Some r"
    by (rule run_lookup)
  then have "task_id (objs s r) \<in> set (keys (tasks (run cs s1)))"
    by (rule lookup_in_keys)
  with assms(2) have "add_task r' (run cs s1) = (False, run cs s1)"
    by (simp add: add_task_def)
  with stored show ?thesis by simp
qed

theorem add_task_duplicate_id_rejected_witness:
  "add_task 0 (init demo_objs) = (True, snd (add_task 0 (init demo_objs)))
   \<and> task_id (objs (run demo_calls (snd (add_task 0 (init demo_objs)))) 2)
       = task_id (objs (init demo_objs) 0)
   \<and> add_task 2 (run demo_calls (snd (add_task 0 (init demo_objs))))
       = (False, run demo_calls (snd (add_task 0 (init demo_objs))))
   \<and> map_of (tasks (run demo_calls (snd (add_task 0 (init demo_objs))))) ''task_1'' = Some 0"
proof -
  have h1: "add_task 0 (init demo_objs) = (True, snd (add_task 0 (init demo_objs)))"
    by (simp add: add_task_def init_def keys_def)
  have h2: "task_id (objs (run demo_calls (snd (add_task 0 (init demo_objs)))) 2)
       = task_id (objs (init demo_objs) 0)"
    by (simp add: store_defs demo_calls_def)
  have id: "task_id (objs (init demo_objs) 0) = ''task_1''"
    by (simp add: store_defs demo_calls_def)
  from add_task_duplicate_id_rejected[OF h1 h2] h1 h2 id show ?thesis by simp
qed

subsection \<open>Assigning a task\<close>

text \<open>
  C9. In a store built by calls of the operations, a successful
  \<^verbatim>\<open>assign_task(task_id, agent_id)\<close> writes the field \<^verbatim>\<open>assigned_to\<close> of the task stored
  under \<open>tid\<close> and nothing else: that object keeps every other field (its status among
  them), every other object is untouched, so is every task stored under another id, and
  the task dictionary, the agents and the stored schedule are the same.
\<close>

theorem assign_task_frame:
  assumes "s = run cs (init h)"
    and "assign_task tid agent_id s = (True, s')"
  shows "\<exists>r. map_of (tasks s) tid = Some r
    \<and> objs s' r = (objs s r)\<lparr>assigned_to := agent_id\<rparr>
    \<and> status (objs s' r) = status (objs s r)
    \<and> (\<forall>r'. r' \<noteq> r \<longrightarrow> objs s' r' = objs s r')
    \<and> (\<forall>k r'. k \<noteq> tid \<longrightarrow> map_of (tasks s) k = Some r' \<longrightarrow> objs s' r' = objs s r')
    \<and> tasks s' = tasks s \<and> agents s' = agents s \<and> current_schedule s' = current_schedule s"
proof -
  from assms(2) obtain r where r: "map_of (tasks s) tid = Some r"
    and s': "s' = s\<lparr>objs := (objs s)(r := (objs s r)\<lparr>assigned_to := agent_id\<rparr>)\<rparr>"
    by (auto simp: assign_task_def split: if_splits option.splits)
  have inv: "keyed_by_id s"
    unfolding assms(1) by (rule keyed_by_id_run) (rule keyed_by_id_init)
  have other: "objs s' r' = objs s r'" if "k \<noteq> tid" "map_of (tasks s) k = Some r'" for k r'
  proof -
    from inv that(2) have "task_id (objs s r') = k"
      by (auto simp: keyed_by_id_def dest: map_of_SomeD)
    moreover from inv r have "task_id (objs s r) = tid"
      by (auto simp: keyed_by_id_def dest: map_of_SomeD)
    ultimately have "r' \<noteq> r" using that(1) by auto
    then show ?thesis by (simp add: s')
  qed
  from r s' other show ?thesis by auto
qed

theorem assign_task_frame_witness:
  "fst (assign_task ''task_2'' ''agent_2'' demo_store) = True
   \<and> map_of (tasks demo_store) ''task_2'' = Some 1
   \<and> assigned_to (objs (snd (assign_task ''task_2'' ''agent_2'' demo_store)) 1) = ''agent_2''
   \<and> status (objs (snd (assign_task ''task_2'' ''agent_2'' demo_store)) 1) = ''pending''
   \<and> objs (snd (assign_task ''task_2'' ''agent_2'' demo_store)) 0 = objs demo_store 0"
proof -
  have h1: "demo_store = run [InitializeSystem [''agent_1'', ''agent_2''], AddTask 0, AddTask 1,
     AddTask 3, AssignTask ''task_1'' ''agent_1'', AssignTask ''task_2'' ''agent_1'']
     (init demo_objs)"
    by (simp add: demo_store_def)
  have ok: "fst (assign_task ''task_2'' ''agent_2'' demo_store) = True"
    by (simp add: store_defs demo_store_def)
  then have h2: "assign_task ''task_2'' ''agent_2'' demo_store
      = (True, snd (assign_task ''task_2'' ''agent_2'' demo_store))"
    by (metis prod.collapse)
  have l: "map_of (tasks demo_store) ''task_2'' = Some 1"
    by (simp add: store_defs demo_store_def)
  have st: "status (objs demo_store 1) = ''pending''"
    by (simp add: store_defs demo_store_def)
  from assign_task_frame[OF h1 h2] l st ok show ?thesis by auto
qed

subsection \<open>Optimizing the schedule\<close>

lemma schedule_loop_entries:
  "(a, l) \<in> set (schedule_loop s ags acc) \<Longrightarrow>
     (a, l) \<in> set acc \<or> (a \<in> set ags \<and> l = agent_tasks s a)"
proof (induction ags arbitrary: acc)
  case Nil
  then show ?case by simp
next
  case (Cons x xs)
  from Cons.IH[of "AList.update x (agent_tasks s x) acc"] Cons.prems
    set_update_subset[of x "agent_tasks s x" acc]
  show ?case by auto
qed

lemma schedule_loop_keys:
  "set (keys (schedule_loop s ags acc)) = set ags \<union> set (keys acc)"
  by (induction ags arbitrary: acc) (auto simp: keys_update)

lemma schedule_loop_distinct:
  "distinct (keys acc) \<Longrightarrow> distinct (keys (schedule_loop s ags acc))"
  by (induction ags arbitrary: acc) (auto simp: keys_def distinct_update)

lemma schedule_loop_keep:
  "a \<notin> set ags \<Longrightarrow> map_of (schedule_loop s ags acc) a = map_of acc a"
  by (induction ags arbitrary: acc) (auto simp: update_conv')

lemma schedule_loop_lookup:
  "a \<in> set ags \<Longrightarrow> map_of (schedule_loop s ags acc) a = Some (agent_tasks s a)"
proof (induction ags arbitrary: acc)
  case Nil
  then show ?case by simp
next
  case (Cons x xs)
  show ?case
  proof (cases "a \<in> set xs")
    case True
    then show ?thesis using Cons.IH by simp
  next
    case False
    with Cons.prems have "a = x" by simp
    then show ?thesis using schedule_loop_keep[OF False] by (simp add: update_conv')
  qed
qed

lemma schedule_loop_current_schedule:
  "schedule_loop (s\<lparr>current_schedule := c\<rparr>) ags acc = schedule_loop s ags acc"
  by (induction ags arbitrary: acc) (auto simp: agent_tasks_def)

lemma agent_tasks_mem:
  "r \<in> set (agent_tasks s a) \<longleftrightarrow> r \<in> set (dict_values (tasks s)) \<and> assigned_to (objs s r) = a"
  by (auto simp: agent_tasks_def)

lemma agent_tasks_sorted:
  "sorted_wrt (\<lambda>x y. priority (objs s x) < priority (objs s y)
      \<or> (priority (objs s x) = priority (objs s y) \<and> due_date (objs s x) \<le> due_date (objs s y)))
     (agent_tasks s a)"
proof -
  have "sorted (map (sort_key_of (objs s)) (agent_tasks s a))"
    by (simp add: agent_tasks_def)
  then have "sorted_wrt (\<lambda>x y. sort_key_of (objs s) x \<le> sort_key_of (objs s) y) (agent_tasks s a)"
    by (simp add: sorted_map)
  then show ?thesis
    by (rule sorted_wrt_mono_rel[rotated]) (auto simp: sort_key_of_def less_eq_prod_def)
qed

text \<open>
  C8. A second \<^verbatim>\<open>optimize_schedule\<close> directly after the first returns the same mapping
  from agents to task lists and leaves the same state; and in the mapping every agent's
  list is in ascending order of priority, tasks of equal priority in ascending order of
  due date.
\<close>

theorem optimize_schedule_idempotent:
  "optimize_schedule (snd (optimize_schedule s)) = optimize_schedule s
   \<and> (\<forall>(a, l) \<in> set (fst (optimize_schedule s)).
        sorted_wrt (\<lambda>x y. priority (objs s x) < priority (objs s y)
          \<or> (priority (objs s x) = priority (objs s y)
              \<and> due_date (objs s x) \<le> due_date (objs s y))) l)"
proof -
  have "optimize_schedule (snd (optimize_schedule s)) = optimize_schedule s"
    by (simp add: optimize_schedule_def Let_def schedule_loop_current_schedule)
  moreover have "sorted_wrt (\<lambda>x y. priority (objs s x) < priority (objs s y)
          \<or> (priority (objs s x) = priority (objs s y)
              \<and> due_date (objs s x) \<le> due_date (objs s y))) l"
    if "(a, l) \<in> set (fst (optimize_schedule s))" for a l
  proof -
    from that have "l = agent_tasks s a"
      using schedule_loop_entries[of a l s "agents s" "[]"]
      by (simp add: optimize_schedule_def Let_def)
    then show ?thesis by (simp add: agent_tasks_sorted)
  qed
  ultimately show ?thesis by auto
qed

theorem optimize_schedule_idempotent_witness:
  "fst (optimize_schedule demo_store) = [(''agent_1'', [1, 0]), (''agent_2'', [])]
   \<and> tasks demo_store = [(''task_1'', 0), (''task_2'', 1), (''task_3'', 3)]
   \<and> optimize_schedule (snd (optimize_schedule demo_store)) = optimize_schedule demo_store"
  using optimize_schedule_idempotent[of demo_store]
  by (simp add: store_defs demo_store_def)

text \<open>
  C10, as the code has it. After \<^verbatim>\<open>optimize_schedule\<close> the keys of the stored schedule are
  exactly the registered agents, each once; the entry of a registered agent is its sorted
  list of assigned tasks, which is also what \<^verbatim>\<open>get_agent_schedule\<close> returns (the empty list
  when nothing is assigned to it); and a task whose \<^verbatim>\<open>assigned_to\<close> is not a registered
  agent is in no list. An unassigned task has the empty string there, so it is in no list
  unless the empty string is itself a registered agent id.
\<close>

theorem optimize_schedule_keys:
  "set (keys (current_schedule (snd (optimize_schedule s)))) = set (agents s)
   \<and> distinct (keys (current_schedule (snd (optimize_schedule s))))
   \<and> (\<forall>a \<in> set (agents s).
        map_of (current_schedule (snd (optimize_schedule s))) a = Some (agent_tasks s a)
        \<and> get_agent_schedule a (snd (optimize_schedule s)) = agent_tasks s a)
   \<and> (\<forall>r. assigned_to (objs s r) \<notin> set (agents s) \<longrightarrow>
        (\<forall>(a, l) \<in> set (current_schedule (snd (optimize_schedule s))). r \<notin> set l))"
proof -
  let ?c = "current_schedule (snd (optimize_schedule s))"
  have c: "?c = schedule_loop s (agents s) []"
    by (simp add: optimize_schedule_def Let_def)
  have k: "set (keys ?c) = set (agents s)"
    using schedule_loop_keys[of s "agents s" "[]"] by (simp add: c keys_def)
  have d: "distinct (keys ?c)"
    unfolding c by (rule schedule_loop_distinct) (simp add: keys_def)
  have l: "map_of ?c a = Some (agent_tasks s a)
      \<and> get_agent_schedule a (snd (optimize_schedule s)) = agent_tasks s a"
    if "a \<in> set (agents s)" for a
    using schedule_loop_lookup[OF that, of s "[]"]
    by (simp add: c get_agent_schedule_def dict_get_def)
  have n: "r \<notin> set l" if "assigned_to (objs s r) \<notin> set (agents s)" "(a, l) \<in> set ?c" for r a l
  proof -
    from that(2) have "a \<in> set (agents s)" "l = agent_tasks s a"
      using schedule_loop_entries[of a l s "agents s" "[]"] by (simp_all add: c)
    with that(1) show ?thesis by (auto simp: agent_tasks_mem)
  qed
  from k d l n show ?thesis by blast
qed

theorem optimize_schedule_keys_witness:
  "agents demo_store = [''agent_1'', ''agent_2'']
   \<and> map_of (tasks demo_store) ''task_3'' = Some 3
   \<and> assigned_to (objs demo_store 3) = []
   \<and> current_schedule (snd (optimize_schedule demo_store))
       = [(''agent_1'', [1, 0]), (''agent_2'', [])]
   \<and> get_agent_schedule ''agent_2'' (snd (optimize_schedule demo_store)) = []"
  using optimize_schedule_keys[of demo_store]
  by (simp add: store_defs demo_store_def get_agent_schedule_def)

text \<open>
  The claim as it was stated fails where the empty string is a registered agent id: the
  unassigned task is then in that agent's list.
\<close>

theorem unassigned_task_scheduled_counterexample:
  "agents unnamed_agent_store = [[]]
   \<and> tasks unnamed_agent_store = [(''task_1'', 0)]
   \<and> assigned_to (objs unnamed_agent_store 0) = []
   \<and> current_schedule (snd (optimize_schedule unnamed_agent_store)) = [([], [0])]"
  by (simp add: store_defs unnamed_agent_store_def)
section \<open>Properties of the calendar checking agent\<close>

lemmas cal_defs = get_availability_def minutes_def busy_def free_def

subsection \<open>The sweep\<close>











subsection \<open>Free intervals\<close>

text \<open>
  C2. The service returns the events of the window ordered by their start, so a meeting
  can lie inside an earlier one. \<^verbatim>\<open>get_availability\<close> sets the cursor to the end of each
  busy slot, also when the cursor is already later: for the window 00:00--10:00 with a
  meeting 01:00--08:00 and, inside it, a meeting 02:00--03:00, it returns 00:00--01:00 and
  03:00--10:00, and the second free slot intersects the first meeting.
\<close>

theorem get_availability_nested_busy_reported_free:
  "nested_calendar 0 (minutes 600) = [busy (minutes 60) (minutes 480), busy (minutes 120) (minutes 180)]
   \<and> sorted (map start_time (nested_calendar 0 (minutes 600)))
   \<and> get_availability nested_calendar 0 (minutes 600)
       = [free 0 (minutes 60), free (minutes 180) (minutes 600)]
   \<and> intersects (free (minutes 180) (minutes 600)) (busy (minutes 60) (minutes 480))"
  by (simp add: cal_defs nested_calendar_def intersects_def)

subsection \<open>The next available slot\<close>







section \<open>Properties of the redistribution\<close>

subsection \<open>The first minimum\<close>

lemma min_by_first_min:
  "\<forall>y \<in> set pre. key b < key y \<Longrightarrow> \<forall>y \<in> set post. key b \<le> key y \<Longrightarrow>
   \<exists>pre' post'. pre @ b # post @ xs = pre' @ min_by key b xs # post'
      \<and> (\<forall>y \<in> set pre'. key (min_by key b xs) < key y)
      \<and> (\<forall>y \<in> set post'. key (min_by key b xs) \<le> key y)"
proof (induction xs arbitrary: pre b post)
  case Nil
  then show ?case by auto
next
  case (Cons x xs)
  show ?case
  proof (cases "key x < key b")
    case True
    have "\<forall>y \<in> set (pre @ b # post). key x < key y"
      using Cons.prems True by fastforce
    from Cons.IH[of "pre @ b # post" x "[]", OF this] True show ?thesis by simp
  next
    case False
    have "\<forall>y \<in> set (post @ [x]). key b \<le> key y"
      using Cons.prems False by auto
    from Cons.IH[of pre b "post @ [x]", OF Cons.prems(1) this] False show ?thesis by simp
  qed
qed

lemma py_min_first_min:
  "wl \<noteq> [] \<Longrightarrow> \<exists>pre m post. py_min key wl = Inr m \<and> wl = pre @ m # post
      \<and> (\<forall>y \<in> set pre. key m < key y) \<and> (\<forall>y \<in> set post. key m \<le> key y)"
proof (cases wl)
  case Nil
  assume "wl \<noteq> []"
  with Nil show ?thesis by simp
next
  case (Cons x xs)
  from min_by_first_min[of "[]" key x "[]" xs] Cons show ?thesis by auto
qed

subsection \<open>The loop follows the policy\<close>

lemma load_snoc: "load (l @ [t]) = load l + priority t"
  by (simp add: load_def)

lemma update_mid:
  "a \<notin> fst ` set pre \<Longrightarrow> AList.update a v (pre @ (a, u) # post) = pre @ (a, v) # post"
  by (induction pre) auto

lemma map_of_mid:
  "a \<notin> fst ` set pre \<Longrightarrow> map_of (pre @ (a, u) # post) a = Some u"
  by (induction pre) auto

lemma assign_loop_greedy:
  assumes "st \<noteq> []" "distinct (map fst st)" "\<forall>(a, w, l) \<in> set st. w = load l"
  shows "\<exists>st'. greedy st ts st' \<and> assign_loop (assignment st) ts = Inr (assignment st')
     \<and> map fst st' = map fst st \<and> (\<forall>(a, w, l) \<in> set st'. w = load l)"
  using assms
proof (induction ts arbitrary: st)
  case Nil
  then show ?case by (auto intro: greedy_done)
next
  case (Cons t ts)
  let ?key = "\<lambda>x :: string \<times> Task list. load (snd x)"
  from Cons.prems(1) have "assignment st \<noteq> []" by (simp add: assignment_def)
  from py_min_first_min[OF this, of ?key] obtain pre m post where
    m: "py_min ?key (assignment st) = Inr m" "assignment st = pre @ m # post"
      "\<forall>y \<in> set pre. ?key m < ?key y" "\<forall>y \<in> set post. ?key m \<le> ?key y"
    by blast
  from m(2) obtain spre sm spost where
    st: "st = spre @ sm # spost" "pre = assignment spre" "m = (\<lambda>(a, w, l). (a, l)) sm"
      "post = assignment spost"
    unfolding assignment_def by (auto simp: map_eq_append_conv Cons_eq_map_conv)
  obtain a w l where sm: "sm = (a, w, l)" by (cases sm)
  have w: "w = load l" using Cons.prems(3) st(1) sm by auto
  have notin: "a \<notin> fst ` set pre"
    using Cons.prems(2) st sm by (force simp: assignment_def)
  have before: "\<forall>(b, v, k) \<in> set spre. w < v"
    using m(3) Cons.prems(3) st sm w by (force simp: assignment_def)
  have after: "\<forall>(b, v, k) \<in> set spost. w \<le> v"
    using m(4) Cons.prems(3) st sm w by (force simp: assignment_def)
  let ?st1 = "spre @ (a, w + priority t, l @ [t]) # spost"
  have a1: "assignment ?st1 = AList.update a (l @ [t]) (assignment st)"
    using m(2) st sm notin by (simp add: assignment_def update_mid)
  have "map_of (pre @ (a, l) # post) a = Some l"
    using notin by (rule map_of_mid)
  then have look: "map_of (assignment st) (fst m) = Some l"
    using m(2) st(3) sm by simp
  have "?st1 \<noteq> []" by simp
  moreover have "distinct (map fst ?st1)" using Cons.prems(2) st(1) sm by simp
  moreover have "\<forall>(a, w, l) \<in> set ?st1. w = load l"
    using Cons.prems(3) st(1) sm w by (auto simp: load_snoc)
  ultimately obtain st' where st': "greedy ?st1 ts st'"
      "assign_loop (assignment ?st1) ts = Inr (assignment st')"
      "map fst st' = map fst ?st1" "\<forall>(a, w, l) \<in> set st'. w = load l"
    using Cons.IH[of ?st1] by blast
  have "greedy st (t # ts) st'"
    using st(1) sm before after st'(1) by (auto intro: greedy_place)
  moreover have "assign_loop (assignment st) (t # ts) = Inr (assignment st')"
    using m(1) look st st'(2) a1 sm by simp
  moreover have "map fst st' = map fst st" using st'(3) st(1) sm by simp
  ultimately show ?case using st'(4) by blast
qed



subsection \<open>The roster and the order of the tasks\<close>

lemma set_roster: "set (roster ags) = set ags"
  by (induction ags) auto

lemma distinct_roster: "distinct (roster ags)"
  by (induction ags) (auto simp: distinct_removeAll)

lemma update_fresh:
  "AList.update a v (map (\<lambda>a. (a, v)) ks) =
     (if a \<in> set ks then map (\<lambda>a. (a, v)) ks else map (\<lambda>a. (a, v)) (ks @ [a]))"
  by (induction ks) auto

lemma empty_workload_roster:
  "empty_workload ags (map (\<lambda>a. (a, [])) ks) =
     map (\<lambda>a. (a, [])) (ks @ filter (\<lambda>a. a \<notin> set ks) (roster ags))"
proof (induction ags arbitrary: ks)
  case Nil
  then show ?case by simp
next
  case (Cons a rest)
  show ?case
  proof (cases "a \<in> set ks")
    case True
    then have "filter (\<lambda>b. b \<notin> set ks) (removeAll a (roster rest))
        = filter (\<lambda>b. b \<notin> set ks) (roster rest)"
      by (auto simp: removeAll_filter_not_eq intro: filter_cong)
    with True Cons.IH[of ks] show ?thesis by (simp add: update_fresh)
  next
    case False
    have "filter (\<lambda>b. b \<notin> set (ks @ [a])) (roster rest)
        = filter (\<lambda>b. b \<notin> set ks) (removeAll a (roster rest))"
      by (auto simp: removeAll_filter_not_eq intro: filter_cong)
    with False Cons.IH[of "ks @ [a]"] show ?thesis by (simp add: update_fresh)
  qed
qed

lemma empty_workload_assignment:
  "empty_workload ags [] = assignment (map (\<lambda>a. (a, 0, [])) (roster ags))"
  using empty_workload_roster[of ags "[]"] by (simp add: assignment_def comp_def)

lemma sorted_reverse_descending:
  "sorted_wrt (\<lambda>x y. priority y \<le> priority x) (sorted_reverse ts)"
proof -
  have "sorted (map priority (sort_key priority (rev ts)))" by simp
  then have "sorted_wrt (\<lambda>x y. priority x \<le> priority y) (sort_key priority (rev ts))"
    by (simp add: sorted_map)
  then show ?thesis by (simp add: sorted_reverse_def sorted_wrt_rev)
qed

lemma mset_sorted_reverse: "mset (sorted_reverse ts) = mset ts"
  by (simp add: sorted_reverse_def)

lemma greedy_tasks:
  "greedy st ts st' \<Longrightarrow>
     mset (concat (map snd (assignment st'))) = mset (concat (map snd (assignment st))) + mset ts"
  by (induction rule: greedy.induct) (auto simp: assignment_def)

text \<open>
  C3. For a roster that is not empty \<^verbatim>\<open>suggest_task_redistribution\<close> returns a mapping, and
  the mapping is reached by the policy: starting with weight 0 and no task for every agent
  of the roster, the tasks are placed one after the other in descending order of priority
  (tasks of equal priority in their given order), each on the first agent in roster order
  among those whose cumulative weight is smallest, and the priority of the task is added
  to that agent's weight. The weights kept by the policy are the sums of the priorities of
  the lists, a placed task stays where it was put, and together the lists hold every task
  exactly once. For priorities 3, 5, 3 and two agents the first agent receives the task
  of priority 5 and the second the two tasks of priority 3.
\<close>

theorem suggest_task_redistribution_greedy:
  assumes "ags \<noteq> []"
  shows "\<exists>st. greedy (map (\<lambda>a. (a, 0, [])) (roster ags)) (sorted_reverse ts) st
      \<and> suggest_task_redistribution ts ags = Inr (assignment st)
      \<and> map fst st = roster ags
      \<and> (\<forall>(a, w, l) \<in> set st. w = load l)
      \<and> mset (concat (map snd (assignment st))) = mset ts
      \<and> sorted_wrt (\<lambda>x y. priority y \<le> priority x) (sorted_reverse ts)
      \<and> mset (sorted_reverse ts) = mset ts
      \<and> suggest_task_redistribution
           [weighted ''a'' 3, weighted ''b'' 5, weighted ''c'' 3] [''agent_1'', ''agent_2'']
         = Inr [(''agent_1'', [weighted ''b'' 5]),
                (''agent_2'', [weighted ''a'' 3, weighted ''c'' 3])]"
proof -
  let ?st0 = "map (\<lambda>a. (a, 0 :: int, [] :: Task list)) (roster ags)"
  from assms have "?st0 \<noteq> []" by (cases ags) auto
  moreover have "distinct (map fst ?st0)" by (simp add: comp_def distinct_roster)
  moreover have "\<forall>(a, w, l) \<in> set ?st0. w = load l" by (auto simp: load_def)
  ultimately obtain st where st: "greedy ?st0 (sorted_reverse ts) st"
      "assign_loop (assignment ?st0) (sorted_reverse ts) = Inr (assignment st)"
      "map fst st = map fst ?st0" "\<forall>(a, w, l) \<in> set st. w = load l"
    using assign_loop_greedy[of ?st0 "sorted_reverse ts"] by blast
  have res: "suggest_task_redistribution ts ags = Inr (assignment st)"
    using st(2) by (simp add: suggest_task_redistribution_def empty_workload_assignment)
  have keys: "map fst st = roster ags" using st(3) by (simp add: comp_def)
  have all: "mset (concat (map snd (assignment st))) = mset ts"
    using greedy_tasks[OF st(1)] by (simp add: assignment_def comp_def mset_sorted_reverse)
  have ex: "suggest_task_redistribution
           [weighted ''a'' 3, weighted ''b'' 5, weighted ''c'' 3] [''agent_1'', ''agent_2'']
         = Inr [(''agent_1'', [weighted ''b'' 5]),
                (''agent_2'', [weighted ''a'' 3, weighted ''c'' 3])]"
    by (simp add: suggest_task_redistribution_def sorted_reverse_def weighted_def new_task_def
        load_def)
  from st(1) res keys st(4) all sorted_reverse_descending[of ts] mset_sorted_reverse[of ts] ex
  show ?thesis by blast
qed

theorem suggest_task_redistribution_greedy_witness:
  "[''agent_1'', ''agent_2''] \<noteq> []
   \<and> sorted_reverse [weighted ''a'' 3, weighted ''b'' 5, weighted ''c'' 3]
       = [weighted ''b'' 5, weighted ''a'' 3, weighted ''c'' 3]
   \<and> suggest_task_redistribution
        [weighted ''a'' 3, weighted ''b'' 5, weighted ''c'' 3] [''agent_1'', ''agent_2'']
      = Inr [(''agent_1'', [weighted ''b'' 5]),
             (''agent_2'', [weighted ''a'' 3, weighted ''c'' 3])]
   \<and> load [weighted ''b'' 5] = 5
   \<and> load [weighted ''a'' 3, weighted ''c'' 3] = 6"
proof -
  have h: "[''agent_1'', ''agent_2''] \<noteq> []" by simp
  from suggest_task_redistribution_greedy[OF h,
      of "[weighted ''a'' 3, weighted ''b'' 5, weighted ''c'' 3]"]
  have ex: "suggest_task_redistribution
        [weighted ''a'' 3, weighted ''b'' 5, weighted ''c'' 3] [''agent_1'', ''agent_2'']
      = Inr [(''agent_1'', [weighted ''b'' 5]),
             (''agent_2'', [weighted ''a'' 3, weighted ''c'' 3])]"
    by blast
  have order: "sorted_reverse [weighted ''a'' 3, weighted ''b'' 5, weighted ''c'' 3]
       = [weighted ''b'' 5, weighted ''a'' 3, weighted ''c'' 3]"
    by (simp add: sorted_reverse_def weighted_def new_task_def)
  have loads: "load [weighted ''b'' 5] = 5" "load [weighted ''a'' 3, weighted ''c'' 3] = 6"
    by (simp_all add: weighted_def new_task_def load_def)
  from h ex order loads show ?thesis by blast
qed
section \<open>Properties of the task sequence\<close>

subsection \<open>Order in a list\<close>









subsection \<open>The traversal\<close>

text \<open>
  A completed call of \<open>visit\<close> keeps \<open>emitted_after_deps\<close>, restores \<open>temp\<close>, has visited
  its argument, and has only appended to \<open>order\<close>, nothing that is in \<open>temp\<close>.
\<close>

lemma emitted_temp [simp]:
  "emitted_after_deps g (st\<lparr>temp := T\<rparr>) = emitted_after_deps g st"
  by (simp add: emitted_after_deps_def)





subsection \<open>Failure of the traversal\<close>






subsection \<open>The result\<close>










subsection \<open>The claims on the task sequence\<close>

lemmas dfs_defs = optimize_task_sequence_def topological_sort_def build_dependency_graph_def
  new_task_def keys_def dict_get_def visit.simps

text \<open>
  C1. The traversal appends an id to \<^verbatim>\<open>order\<close> after all of its dependencies
  (\<open>visit_emitted\<close>), and \<^verbatim>\<open>_topological_sort\<close> then returns \<^verbatim>\<open>order[::-1]\<close>: in the
  returned list every task comes before its dependencies (\<open>topological_sort_order\<close>), not
  after them. For \<open>chain_tasks\<close>, where \<open>task_2\<close> depends on \<open>task_1\<close>, the result is
  \<open>task_2\<close>, \<open>task_1\<close>, whenever two frames or more are free.
\<close>

theorem optimize_task_sequence_dependent_first:
  "optimize_task_sequence (Suc (Suc n)) chain_tasks = Inr [''task_2'', ''task_1'']
   \<and> dependencies (chain_tasks ! 1) = [''task_1'']
   \<and> precedes ''task_2'' ''task_1'' [''task_2'', ''task_1'']
   \<and> \<not> precedes ''task_1'' ''task_2'' [''task_2'', ''task_1'']"
  by (simp add: dfs_defs chain_tasks_def precedes_def)







end
